theory Spec2Isabelle
  imports Complex_Main
begin

section \<open>Python and NumPy primitives used by the question-answering notebook\<close>

text \<open>
  Exceptions of the notebook as values. \<open>RuntimeError\<close> is the one \<open>prepare_input\<close>
  raises itself; \<open>ValueError\<close> is what \<open>range\<close> (step 0), \<open>reshape\<close> (size mismatch),
  \<open>argmax\<close> (empty array) and \<open>max\<close> (empty list) raise; \<open>IndexError\<close> is a list read out
  of range; \<open>EOFError\<close> is \<open>input()\<close> at the end of the input; \<open>InferenceError\<close> is any
  failure of the compiled model, passed through unchanged.
\<close>

datatype error = RuntimeError | ValueError | IndexError | EOFError | InferenceError

text \<open>
  \<open>range(start, stop, step)\<close>: step 0 raises; otherwise the elements are
  \<open>start + k * step\<close> for \<open>k\<close> below CPython's length formula.
\<close>

definition py_range :: "int \<Rightarrow> int \<Rightarrow> int \<Rightarrow> error + int list" where
  "py_range start stop step =
     (if step = 0 then Inl ValueError
      else if 0 < step then
        Inr (map (\<lambda>k. start + int k * step) [0..<nat ((stop - start + step - 1) div step)])
      else
        Inr (map (\<lambda>k. start + int k * step) [0..<nat ((start - stop - step - 1) div (- step))]))"

text \<open>
  The slice \<open>xs[i:j]\<close>: a negative bound counts from the end, and both bounds are
  clamped to the list; an empty range gives the empty list.
\<close>

definition py_slice :: "int \<Rightarrow> int \<Rightarrow> 'a list \<Rightarrow> 'a list" where
  "py_slice i j xs =
     (let n = int (length xs);
          lo = (if i < 0 then max (i + n) 0 else min i n);
          hi = (if j < 0 then max (j + n) 0 else min j n)
      in take (nat (hi - lo)) (drop (nat lo) xs))"

text \<open>The read \<open>xs[i]\<close>: a negative index counts from the end, out of range raises.\<close>

definition py_index :: "'a list \<Rightarrow> int \<Rightarrow> error + 'a" where
  "py_index xs i =
     (let n = int (length xs); j = (if i < 0 then i + n else i)
      in if 0 \<le> j \<and> j < n then Inr (xs ! nat j) else Inl IndexError)"

text \<open>\<open>sep.join(parts)\<close>.\<close>

fun py_join :: "string \<Rightarrow> string list \<Rightarrow> string" where
  "py_join sep [] = []"
| "py_join sep [x] = x"
| "py_join sep (x # y # ys) = x @ sep @ py_join sep (y # ys)"

text \<open>
  \<open>max(results, key=operator.itemgetter(0))\<close>: the first element whose key is maximal
  (a later element replaces the current best only when its key is strictly greater);
  an empty list raises.
\<close>

fun max_loop :: "('k::linorder) \<times> 'a \<Rightarrow> ('k \<times> 'a) list \<Rightarrow> 'k \<times> 'a" where
  "max_loop best [] = best"
| "max_loop best (r # rs) = (if fst best < fst r then max_loop r rs else max_loop best rs)"

definition py_max_key0 :: "(('k::linorder) \<times> 'a) list \<Rightarrow> error + 'k \<times> 'a" where
  "py_max_key0 rs = (case rs of [] \<Rightarrow> Inl ValueError | r # rest \<Rightarrow> Inr (max_loop r rest))"

text \<open>
  \<open>a.reshape((n, 1))\<close> and \<open>a.reshape((1, n))\<close> of a one-dimensional array: the
  dimension \<open>-1\<close> is inferred from the size, any other negative dimension raises, and so
  does a size different from \<open>n\<close>. The elements are kept in order.
\<close>

definition np_reshape :: "int \<Rightarrow> 'a list \<Rightarrow> error + 'a list" where
  "np_reshape n xs =
     (if n = - 1 then Inr xs
      else if n < 0 \<or> int (length xs) \<noteq> n then Inl ValueError
      else Inr xs)"

text \<open>\<open>np.matmul\<close> of an \<open>(n, 1)\<close> column with a \<open>(1, m)\<close> row: the outer product.\<close>

definition np_matmul_col_row :: "real list \<Rightarrow> real list \<Rightarrow> real list list" where
  "np_matmul_col_row col row = map (\<lambda>x. map (\<lambda>y. x * y) row) col"

text \<open>
  \<open>np.triu(m)\<close> zeroes the entries below the main diagonal (column \<open>j < i\<close>);
  \<open>np.tril(m, k)\<close> zeroes the entries above the \<open>k\<close>-th diagonal (column \<open>j > i + k\<close>).
\<close>

definition np_triu :: "real list list \<Rightarrow> real list list" where
  "np_triu m =
     map (\<lambda>(i, row). map (\<lambda>(j, x). if j < i then 0 else x) (enumerate 0 row)) (enumerate 0 m)"

definition np_tril :: "nat \<Rightarrow> real list list \<Rightarrow> real list list" where
  "np_tril k m =
     map (\<lambda>(i, row). map (\<lambda>(j, x). if i + k < j then 0 else x) (enumerate 0 row)) (enumerate 0 m)"

text \<open>
  \<open>a.argmax()\<close> of a flat array: one scan that keeps the first index of the largest
  value seen so far; an empty array raises.
\<close>

fun argmax_loop :: "nat \<Rightarrow> ('a::linorder) \<Rightarrow> nat \<Rightarrow> 'a list \<Rightarrow> nat" where
  "argmax_loop best_i best_v i [] = best_i"
| "argmax_loop best_i best_v i (x # xs) =
     (if best_v < x then argmax_loop i x (Suc i) xs
      else argmax_loop best_i best_v (Suc i) xs)"

definition np_argmax :: "('a::linorder) list \<Rightarrow> error + nat" where
  "np_argmax xs = (case xs of [] \<Rightarrow> Inl ValueError | x # rest \<Rightarrow> Inr (argmax_loop 0 x 1 rest))"

text \<open>The read \<open>m[i, j]\<close> of a matrix, both indices non-negative here.\<close>

definition np_get2 :: "real list list \<Rightarrow> nat \<Rightarrow> nat \<Rightarrow> error + real" where
  "np_get2 m i j =
     (if i < length m \<and> j < length (m ! i) then Inr (m ! i ! j) else Inl IndexError)"

section \<open>The environment of the notebook\<close>

text \<open>
  One model input, as \<open>prepare_input\<close> builds it: the dictionary with the keys
  \<open>input_ids\<close>, \<open>attention_mask\<close>, \<open>token_type_ids\<close> and, when the model declares it,
  \<open>position_ids\<close>. Each value is a one-row \<open>int32\<close> array, kept here as the row.
\<close>

record network_input =
  input_ids :: "int list"
  attention_mask :: "int list"
  token_type_ids :: "int list"
  position_ids :: "int list option"

text \<open>What the generator yields: the input, the number of padding tokens, the start.\<close>

type_synonym window = "network_input \<times> int \<times> int"

text \<open>
  The module-level names the functions read, and the collaborators that are not part of
  the notebook: \<open>input_size\<close> is the second dimension of the model's first input;
  \<open>cls_token\<close>, \<open>sep_token\<close> and \<open>pad_token\<close> are vocabulary entries;
  \<open>has_position_ids\<close> says whether \<open>position_ids\<close> is among the model's input names;
  \<open>text_to_tokens\<close> is \<open>tokens.text_to_tokens\<close> with the loaded vocabulary (token ids and
  their character ranges); \<open>str_lower\<close> is \<open>str.lower\<close>; \<open>compiled_model\<close> is one
  inference call, returning the rows \<open>output_s\<close> and \<open>output_e\<close>; \<open>is_url\<close> is the
  \<open>urlparse\<close> test of \<open>load_context\<close> and \<open>get_paragraphs\<close> is \<open>reader.get_paragraphs\<close>.
\<close>

record env =
  input_size :: int
  cls_token :: int
  sep_token :: int
  pad_token :: int
  has_position_ids :: bool
  text_to_tokens :: "string \<Rightarrow> int list \<times> (int \<times> int) list"
  str_lower :: "string \<Rightarrow> string"
  compiled_model :: "network_input \<Rightarrow> error + real list \<times> real list"
  is_url :: "string \<Rightarrow> bool"
  get_paragraphs :: "string list \<Rightarrow> string list"

section \<open>Preprocessing: \<open>load_context\<close>, \<open>pad\<close>, \<open>prepare_input\<close>\<close>

definition load_context :: "env \<Rightarrow> string list \<Rightarrow> string" where
  "load_context e sources =
     (let input_urls = filter (is_url e) sources;
          paragraphs = filter (\<lambda>s. \<not> is_url e s) sources
      in py_join [CHR 0x0A] (paragraphs @ get_paragraphs e input_urls))"

definition pad :: "env \<Rightarrow> int list \<Rightarrow> int list \<Rightarrow> int list
    \<Rightarrow> (int list \<times> int list \<times> int list) \<times> int" where
  "pad e ids am tt =
     (let diff_input_size = input_size e - int (length ids)
      in if 0 < diff_input_size then
           ((ids @ replicate (nat diff_input_size) (pad_token e),
             am @ replicate (nat diff_input_size) 0,
             tt @ replicate (nat diff_input_size) 0), diff_input_size)
         else ((ids, am, tt), diff_input_size))"

text \<open>The body of the loop of \<open>prepare_input\<close>, for one \<open>start\<close>.\<close>

definition make_window :: "env \<Rightarrow> int list \<Rightarrow> int list \<Rightarrow> int \<Rightarrow> int \<Rightarrow> window" where
  "make_window e question_tokens context_tokens context_len start =
     (let question_len = int (length question_tokens);
          part_context_tokens = py_slice start (start + context_len) context_tokens;
          ids = [cls_token e] @ question_tokens @ [sep_token e] @ part_context_tokens @ [sep_token e];
          am = replicate (length ids) (1::int);
          tt = replicate (nat (question_len + 2)) (0::int)
               @ replicate (nat (int (length part_context_tokens) + 1)) 1;
          ((ids', am', tt'), pad_number) = pad e ids am tt
      in (\<lparr>input_ids = ids', attention_mask = am', token_type_ids = tt',
           position_ids = (if has_position_ids e then Some (map int [0..<length ids']) else None)\<rparr>,
          pad_number, start))"

definition prepare_input :: "env \<Rightarrow> int list \<Rightarrow> int list \<Rightarrow> error + window list" where
  "prepare_input e question_tokens context_tokens =
     (let question_len = int (length question_tokens);
          context_len = input_size e - question_len - 3
      in if context_len < 16 then Inl RuntimeError
         else case py_range 0 (max 1 (int (length context_tokens) - context_len)) (context_len div 2) of
                Inl err \<Rightarrow> Inl err
              | Inr starts \<Rightarrow>
                  Inr (map (make_window e question_tokens context_tokens context_len) starts))"

section \<open>Postprocessing: \<open>get_score\<close>, \<open>find_best_answer_window\<close>, \<open>postprocess\<close>\<close>

text \<open>
  The softmax of \<open>postprocess\<close> in exact real arithmetic:
  \<open>exp(logits) / exp(logits).sum()\<close>. The source computes it in floating point and
  subtracts no maximum first, so it agrees with this only while \<open>np.exp\<close> does not
  overflow: a logit of 1000 gives \<open>inf\<close> there, and \<open>inf / inf\<close> is \<open>nan\<close>.
\<close>

definition get_score :: "real list \<Rightarrow> real list" where
  "get_score logits = (let out = map exp logits in map (\<lambda>x. x / sum_list out) out)"

text \<open>
  The three lines of \<open>find_best_answer_window\<close> that build \<open>score_mat\<close>: the product of
  the start column and the end row, then \<open>np.triu\<close> and \<open>np.tril(score_mat, 16)\<close>.
\<close>

definition score_matrix :: "real list \<Rightarrow> real list \<Rightarrow> real list list" where
  "score_matrix col row = np_tril 16 (np_triu (np_matmul_col_row col row))"

definition find_best_answer_window :: "real list \<Rightarrow> real list \<Rightarrow> int \<Rightarrow> int
    \<Rightarrow> error + real \<times> int \<times> int" where
  "find_best_answer_window start_score end_score context_start_idx context_end_idx =
     (let context_len = context_end_idx - context_start_idx
      in case np_reshape context_len (py_slice context_start_idx context_end_idx start_score) of
           Inl err \<Rightarrow> Inl err
         | Inr col \<Rightarrow>
        (case np_reshape context_len (py_slice context_start_idx context_end_idx end_score) of
           Inl err \<Rightarrow> Inl err
         | Inr row \<Rightarrow>
        (let score_mat = score_matrix col row
         in case np_argmax (concat score_mat) of
              Inl err \<Rightarrow> Inl err
            | Inr flat \<Rightarrow>
           (let max_s = flat div length row; max_e = flat mod length row
            in case np_get2 score_mat max_s max_e of
                 Inl err \<Rightarrow> Inl err
               | Inr max_score \<Rightarrow> Inr (max_score, int max_s, int max_e)))))"

definition postprocess :: "env \<Rightarrow> real list \<Rightarrow> real list \<Rightarrow> int list \<Rightarrow> (int \<times> int) list
    \<Rightarrow> int \<Rightarrow> int \<Rightarrow> error + real \<times> int \<times> int" where
  "postprocess e output_start output_end question_tokens context_tokens_start_end padding start_idx =
     (let score_start = get_score output_start;
          score_end = get_score output_end;
          context_start_idx = int (length question_tokens) + 2;
          context_end_idx = input_size e - padding - 1
      in case find_best_answer_window score_start score_end context_start_idx context_end_idx of
           Inl err \<Rightarrow> Inl err
         | Inr (max_score, max_start, max_end) \<Rightarrow>
        (case py_index context_tokens_start_end (max_start + start_idx) of
           Inl err \<Rightarrow> Inl err
         | Inr start_range \<Rightarrow>
        (case py_index context_tokens_start_end (max_end + start_idx) of
           Inl err \<Rightarrow> Inl err
         | Inr end_range \<Rightarrow> Inr (max_score, fst start_range, snd end_range))))"

section \<open>The pipeline: \<open>get_best_answer\<close>, \<open>run_question_answering\<close>\<close>

text \<open>
  The loop of \<open>get_best_answer\<close> over the windows: one inference call and one
  \<open>postprocess\<close> per window, in the order the generator yields them; the first
  exception ends the loop.
\<close>

fun window_results :: "env \<Rightarrow> int list \<Rightarrow> (int \<times> int) list \<Rightarrow> window list
    \<Rightarrow> error + (real \<times> int \<times> int) list" where
  "window_results e question_tokens offsets [] = Inr []"
| "window_results e question_tokens offsets ((network_input, padding, start_idx) # ws) =
     (case compiled_model e network_input of
        Inl err \<Rightarrow> Inl err
      | Inr (output_s, output_e) \<Rightarrow>
     (case postprocess e output_s output_e question_tokens offsets padding start_idx of
        Inl err \<Rightarrow> Inl err
      | Inr score_start_end \<Rightarrow>
     (case window_results e question_tokens offsets ws of
        Inl err \<Rightarrow> Inl err
      | Inr rest \<Rightarrow> Inr (score_start_end # rest))))"

definition get_best_answer :: "env \<Rightarrow> string \<Rightarrow> string \<Rightarrow> error + string \<times> real" where
  "get_best_answer e question context =
     (let (context_tokens, context_tokens_start_end) = text_to_tokens e (str_lower e context);
          (question_tokens, unused) = text_to_tokens e (str_lower e question)
      in case prepare_input e question_tokens context_tokens of
           Inl err \<Rightarrow> Inl err
         | Inr windows \<Rightarrow>
        (case window_results e question_tokens context_tokens_start_end windows of
           Inl err \<Rightarrow> Inl err
         | Inr results \<Rightarrow>
        (case py_max_key0 results of
           Inl err \<Rightarrow> Inl err
         | Inr answer \<Rightarrow>
             Inr (py_slice (fst (snd answer)) (snd (snd answer)) context, fst answer))))"

text \<open>
  What \<open>run_question_answering\<close> prints, without the timings: either the line
  \<open>Error: Empty context or outside paragraphs\<close> (the function then returns normally), or
  one answer and score per question asked.
\<close>

datatype outcome = EmptyContextReported | Answered "(string \<times> real) list"

text \<open>The interactive loop: questions are read until an empty line.\<close>

fun question_loop :: "env \<Rightarrow> string \<Rightarrow> string list \<Rightarrow> error + (string \<times> real) list" where
  "question_loop e context [] = Inl EOFError"
| "question_loop e context (question # later) =
     (if question = [] then Inr []
      else case get_best_answer e question context of
             Inl err \<Rightarrow> Inl err
           | Inr a \<Rightarrow>
          (case question_loop e context later of
             Inl err \<Rightarrow> Inl err
           | Inr rest \<Rightarrow> Inr (a # rest)))"

definition run_question_answering :: "env \<Rightarrow> string list \<Rightarrow> string option \<Rightarrow> string list
    \<Rightarrow> error + outcome" where
  "run_question_answering e sources example_question stdin =
     (let context = load_context e sources
      in if length context = 0 then Inr EmptyContextReported
         else case example_question of
                Some q \<Rightarrow>
                  (case get_best_answer e q context of
                     Inl err \<Rightarrow> Inl err
                   | Inr a \<Rightarrow> Inr (Answered [a]))
              | None \<Rightarrow>
                  (case question_loop e context stdin of
                     Inl err \<Rightarrow> Inl err
                   | Inr answers \<Rightarrow> Inr (Answered answers)))"

section \<open>Observations on windows\<close>

text \<open>The context capacity of a window: \<open>context_len\<close> in \<open>prepare_input\<close>.\<close>

definition context_capacity :: "env \<Rightarrow> int list \<Rightarrow> int" where
  "context_capacity e question_tokens = input_size e - int (length question_tokens) - 3"

text \<open>
  The number of values \<open>range(0, max(1, len(context_tokens) - context_len), context_len // 2)\<close>
  has, once \<open>context_len\<close> is at least 16.
\<close>

definition window_count :: "env \<Rightarrow> int list \<Rightarrow> int list \<Rightarrow> nat" where
  "window_count e question_tokens context_tokens =
     nat ((max 1 (int (length context_tokens) - context_capacity e question_tokens)
           + context_capacity e question_tokens div 2 - 1)
          div (context_capacity e question_tokens div 2))"

text \<open>
  The context tokens a window holds, read back from its input ids between the indices
  \<open>context_start_idx\<close> and \<open>context_end_idx\<close> that \<open>postprocess\<close> computes.
\<close>

definition context_part :: "env \<Rightarrow> int list \<Rightarrow> window \<Rightarrow> int list" where
  "context_part e question_tokens w =
     (case w of (ni, padding, start) \<Rightarrow>
        py_slice (int (length question_tokens) + 2) (input_size e - padding - 1) (input_ids ni))"

text \<open>Whether the context token with index \<open>i\<close> lies in the slice of a window.\<close>

definition covers :: "env \<Rightarrow> int list \<Rightarrow> int \<Rightarrow> window \<Rightarrow> bool" where
  "covers e question_tokens i w =
     (case w of (ni, padding, start) \<Rightarrow>
        start \<le> i \<and> i < start + int (length (context_part e question_tokens w)))"

definition covered_by_any :: "env \<Rightarrow> int list \<Rightarrow> window list \<Rightarrow> int \<Rightarrow> bool" where
  "covered_by_any e question_tokens ws i = list_ex (covers e question_tokens i) ws"

text \<open>The number of context-token indices that lie in the slices of both windows.\<close>

definition overlap :: "env \<Rightarrow> int list \<Rightarrow> window \<Rightarrow> window \<Rightarrow> int" where
  "overlap e question_tokens w1 w2 =
     (case (w1, w2) of ((ni1, padding1, start1), (ni2, padding2, start2)) \<Rightarrow>
        max 0 (min (start1 + int (length (context_part e question_tokens w1)))
                   (start2 + int (length (context_part e question_tokens w2)))
               - max start1 start2))"

fun adjacent_overlaps :: "env \<Rightarrow> int list \<Rightarrow> window list \<Rightarrow> int list" where
  "adjacent_overlaps e question_tokens (w1 # w2 # ws) =
     overlap e question_tokens w1 w2 # adjacent_overlaps e question_tokens (w2 # ws)"
| "adjacent_overlaps e question_tokens ws = []"

section \<open>A small environment for concrete runs\<close>

text \<open>
  Modelled from the spec: the tokenizer (the module \<open>tokens_bert\<close>, which is not among the
  sources) turns a text into an ordered sequence of tokens, each an integer id with the
  half-open character range it was derived from. This stand-in is used in the concrete
  runs only: every character other than a space is one token, its id the character code
  and its range the character's position. A text of spaces has no tokens.
\<close>

definition char_tokens :: "string \<Rightarrow> int list \<times> (int \<times> int) list" where
  "char_tokens s =
     (let toks = filter (\<lambda>(i, c). c \<noteq> CHR '' '') (enumerate 0 s)
      in (map (\<lambda>(i, c). int (of_char c)) toks, map (\<lambda>(i, c). (int i, int i + 1)) toks))"

text \<open>
  An input size of 20, no URLs among the sources, and a model that answers every window
  with all-zero logits.
\<close>

definition demo_env :: env where
  "demo_env = \<lparr>input_size = 20, cls_token = 101, sep_token = 102, pad_token = 0,
     has_position_ids = True, text_to_tokens = char_tokens, str_lower = (\<lambda>s. s),
     compiled_model = (\<lambda>ni. Inr (replicate 20 0, replicate 20 0)),
     is_url = (\<lambda>s. False), get_paragraphs = (\<lambda>urls. [])\<rparr>"

text \<open>Logits that are 0 everywhere except \<open>ln 2\<close> at position \<open>k\<close>.\<close>

definition peak_logits :: "nat \<Rightarrow> nat \<Rightarrow> real list" where
  "peak_logits n k = (replicate n 0)[k := ln 2]"

section \<open>Facts about the primitives\<close>

lemma py_slice_nonneg:
  "0 \<le> i \<Longrightarrow> i \<le> j \<Longrightarrow> py_slice i j xs = take (nat (j - i)) (drop (nat i) xs)"
  by (auto simp: py_slice_def Let_def min_def max_def)

lemma replicate_plus3: "replicate (n + 3) x = x # x # x # replicate n x"
  by (simp add: numeral_3_eq_3)

text \<open>The indices \<open>range(0, M, s)\<close> yields are exactly the multiples of \<open>s\<close> below \<open>M\<close>.\<close>

lemma range_index_bound:
  fixes s M :: int
  assumes "0 < s"
  shows "int k < (M + s - 1) div s \<longleftrightarrow> int k * s < M"
proof -
  define d where "d = (M + s - 1) div s"
  define r where "r = (M + s - 1) mod s"
  have eq: "d * s + r = M + s - 1" by (simp add: d_def r_def)
  have r: "0 \<le> r" "r < s" using assms by (simp_all add: r_def)
  show ?thesis
  proof
    assume "int k < (M + s - 1) div s"
    then have "int k + 1 \<le> d" by (simp add: d_def)
    then have "(int k + 1) * s \<le> d * s" using assms by (simp add: mult_right_mono)
    then have "int k * s + s \<le> d * s" by (simp add: algebra_simps)
    then show "int k * s < M" using eq r by linarith
  next
    assume lt: "int k * s < M"
    show "int k < (M + s - 1) div s"
    proof (rule ccontr)
      assume "\<not> int k < (M + s - 1) div s"
      then have "d \<le> int k" by (simp add: d_def)
      then have "d * s \<le> int k * s" using assms by (simp add: mult_right_mono)
      then show False using eq r lt by linarith
    qed
  qed
qed

section \<open>Facts about \<open>prepare_input\<close>\<close>

lemma make_window_fields:
  assumes st: "0 \<le> start" and L0: "0 \<le> L" and L: "L = input_size e - int (length q) - 3"
    and part: "part = take (nat L) (drop (nat start) c)"
    and mw: "make_window e q c L start = (ni, padding, st')"
  shows "st' = start"
    and "padding = L - int (length part)"
    and "0 \<le> padding"
    and "input_ids ni = [cls_token e] @ q @ [sep_token e] @ part @ [sep_token e]
                    @ replicate (nat padding) (pad_token e)"
    and "attention_mask ni = replicate (length q + length part + 3) 1 @ replicate (nat padding) 0"
    and "token_type_ids ni = replicate (length q + 2) 0 @ replicate (length part + 1) 1
                    @ replicate (nat padding) 0"
proof -
  have sl: "py_slice start (start + L) c = part"
    using st L0 by (simp add: py_slice_nonneg part)
  have len: "int (length part) \<le> L" using L0 by (simp add: part)
  have isz: "input_size e = L + int (length q) + 3" using L by simp
  have mw': "(ni, padding, st') =
     (let ids = [cls_token e] @ q @ [sep_token e] @ part @ [sep_token e];
          am = replicate (length ids) (1::int);
          tt = replicate (length q + 2) (0::int) @ replicate (length part + 1) 1;
          ((ids', am', tt'), pad_number) = pad e ids am tt
      in (\<lparr>input_ids = ids', attention_mask = am', token_type_ids = tt',
           position_ids = (if has_position_ids e then Some (map int [0..<length ids']) else None)\<rparr>,
          pad_number, start))"
    using mw unfolding make_window_def sl by (simp add: Let_def nat_add_distrib)
  show "st' = start" using mw' by (simp add: Let_def pad_def split: if_splits)
  show pd: "padding = L - int (length part)"
    using mw' by (simp add: Let_def pad_def isz split: if_splits)
  show "0 \<le> padding" using pd len by simp
  show "input_ids ni = [cls_token e] @ q @ [sep_token e] @ part @ [sep_token e]
                    @ replicate (nat padding) (pad_token e)"
    using mw' len by (simp add: Let_def pad_def isz split: if_splits)
  show "attention_mask ni = replicate (length q + length part + 3) 1 @ replicate (nat padding) 0"
    using mw' len by (simp add: Let_def pad_def isz replicate_plus3 split: if_splits)
  show "token_type_ids ni = replicate (length q + 2) 0 @ replicate (length part + 1) 1
                    @ replicate (nat padding) 0"
    using mw' len by (simp add: Let_def pad_def isz split: if_splits)
qed

lemma context_part_window:
  assumes st: "0 \<le> start" and L0: "0 \<le> L" and L: "L = input_size e - int (length q) - 3"
    and mw: "make_window e q c L start = (ni, padding, st')"
  shows "context_part e q (ni, padding, st') = take (nat L) (drop (nat start) c)"
proof -
  define part where "part = take (nat L) (drop (nat start) c)"
  note f = make_window_fields [OF st L0 L part_def mw]
  have ce: "input_size e - padding - 1 = int (length q) + 2 + int (length part)"
    using f(2) L by simp
  have ids: "input_ids ni = ([cls_token e] @ q @ [sep_token e]) @ part @ ([sep_token e]
                    @ replicate (nat padding) (pad_token e))"
    using f(4) by simp
  have "context_part e q (ni, padding, st')
      = take (length part) (drop (length q + 2) (input_ids ni))"
    unfolding context_part_def by (simp add: ce py_slice_nonneg nat_add_distrib)
  also have "\<dots> = part" unfolding ids by simp
  finally show ?thesis by (simp add: part_def)
qed

lemma prepare_input_eq:
  "prepare_input e q c =
     (if context_capacity e q < 16 then Inl RuntimeError
      else Inr (map (\<lambda>k. make_window e q c (context_capacity e q)
                             (int k * (context_capacity e q div 2)))
                    [0..<window_count e q c]))"
proof (cases "context_capacity e q < 16")
  case True
  then show ?thesis by (simp add: prepare_input_def context_capacity_def Let_def)
next
  case False
  then have "0 < (input_size e - int (length q) - 3) div 2"
    by (simp add: context_capacity_def)
  with False show ?thesis
    unfolding prepare_input_def Let_def py_range_def window_count_def context_capacity_def
    by (simp add: o_def)
qed

lemma window_count_iff:
  assumes "16 \<le> context_capacity e q"
  shows "k < window_count e q c \<longleftrightarrow>
         int k * (context_capacity e q div 2) < max 1 (int (length c) - context_capacity e q)"
proof -
  have s: "0 < context_capacity e q div 2" using assms by simp
  have "0 \<le> (max 1 (int (length c) - context_capacity e q) + context_capacity e q div 2 - 1)
          div (context_capacity e q div 2)"
    using s by (simp add: pos_imp_zdiv_nonneg_iff)
  then have "k < window_count e q c \<longleftrightarrow>
      int k < (max 1 (int (length c) - context_capacity e q) + context_capacity e q div 2 - 1)
          div (context_capacity e q div 2)"
    unfolding window_count_def by linarith
  then show ?thesis using range_index_bound [OF s] by simp
qed

lemma window_count_pos: "16 \<le> context_capacity e q \<Longrightarrow> 0 < window_count e q c"
  by (simp add: window_count_iff)

lemma prepare_input_windows:
  assumes "prepare_input e q c = Inr ws"
  shows "16 \<le> context_capacity e q"
    and "length ws = window_count e q c"
    and "k < length ws \<Longrightarrow>
           ws ! k = make_window e q c (context_capacity e q) (int k * (context_capacity e q div 2))"
    and "ws \<noteq> []"
proof -
  show c16: "16 \<le> context_capacity e q"
    using assms by (simp add: prepare_input_eq split: if_splits)
  then have ws: "ws = map (\<lambda>k. make_window e q c (context_capacity e q)
                             (int k * (context_capacity e q div 2))) [0..<window_count e q c]"
    using assms by (simp add: prepare_input_eq)
  show len: "length ws = window_count e q c" by (subst ws) simp
  show "ws ! k = make_window e q c (context_capacity e q) (int k * (context_capacity e q div 2))"
    if "k < length ws"
    using that len by (subst ws) simp
  show "ws \<noteq> []" using len window_count_pos [OF c16, of c] by auto
qed

lemma window_part_full:
  assumes c16: "16 \<le> context_capacity e q"
    and k: "k < window_count e q c" and "0 < k \<or> context_capacity e q \<le> int (length c)"
  shows "length (take (nat (context_capacity e q))
           (drop (nat (int k * (context_capacity e q div 2))) c)) = nat (context_capacity e q)"
proof -
  let ?L = "context_capacity e q"
  have s8: "8 \<le> ?L div 2" using c16 by simp
  have lt: "int k * (?L div 2) < max 1 (int (length c) - ?L)"
    using k window_count_iff [OF c16] by simp
  have "int k * (?L div 2) + ?L \<le> int (length c)"
  proof (cases "0 < k")
    case True
    then have "1 * (?L div 2) \<le> int k * (?L div 2)"
      using s8 by (intro mult_right_mono) auto
    with lt s8 show ?thesis by linarith
  next
    case False
    with assms(3) show ?thesis by simp
  qed
  moreover have "0 \<le> int k * (?L div 2)" using s8 by simp
  ultimately have le: "nat (int k * (?L div 2)) + nat ?L \<le> length c"
    using c16 by linarith
  show ?thesis using le by simp
qed

lemma prepare_input_member:
  assumes "prepare_input e q c = Inr ws" and "w \<in> set ws"
  obtains k where "k < window_count e q c"
    and "w = make_window e q c (context_capacity e q) (int k * (context_capacity e q div 2))"
proof -
  from assms(2) obtain k where k: "k < length ws" "ws ! k = w"
    by (auto simp: in_set_conv_nth)
  with prepare_input_windows(2,3) [OF assms(1)] that show thesis by metis
qed

lemma window_slice_length:
  assumes pi: "prepare_input e q c = Inr ws" and k: "k < length ws"
  shows "\<exists>ni padding. ws ! k = (ni, padding, int k * (context_capacity e q div 2))
      \<and> context_part e q (ws ! k)
          = take (nat (context_capacity e q)) (drop (nat (int k * (context_capacity e q div 2))) c)"
proof -
  let ?L = "context_capacity e q"
  have c16: "16 \<le> ?L" using prepare_input_windows(1) [OF pi] .
  have st0: "0 \<le> int k * (?L div 2)" using c16 by simp
  have L0: "0 \<le> ?L" using c16 by simp
  have L: "?L = input_size e - int (length q) - 3" by (simp add: context_capacity_def)
  obtain ni padding st' where mw: "make_window e q c ?L (int k * (?L div 2)) = (ni, padding, st')"
    by (metis prod_cases3)
  have wk: "ws ! k = (ni, padding, st')"
    using prepare_input_windows(3) [OF pi k] mw by simp
  have "st' = int k * (?L div 2)"
    using make_window_fields(1) [OF st0 L0 L refl mw] .
  moreover have "context_part e q (ni, padding, st') = take (nat ?L) (drop (nat (int k * (?L div 2))) c)"
    using context_part_window [OF st0 L0 L mw] .
  ultimately show ?thesis using wk by simp
qed

lemma tail_not_covered:
  assumes pi: "prepare_input e q c = Inr ws"
    and long: "context_capacity e q < int (length c)"
  shows "\<not> covered_by_any e q ws (int (length c) - 1)"
proof
  let ?L = "context_capacity e q"
  assume "covered_by_any e q ws (int (length c) - 1)"
  then obtain k where k: "k < length ws" and cov: "covers e q (int (length c) - 1) (ws ! k)"
    by (auto simp: covered_by_any_def list_ex_iff in_set_conv_nth)
  have c16: "16 \<le> ?L" using prepare_input_windows(1) [OF pi] .
  from window_slice_length [OF pi k] obtain ni padding where
    wk: "ws ! k = (ni, padding, int k * (?L div 2))"
    and cp: "context_part e q (ws ! k) = take (nat ?L) (drop (nat (int k * (?L div 2))) c)"
    by blast
  have "k < window_count e q c" using k prepare_input_windows(2) [OF pi] by simp
  then have lt: "int k * (?L div 2) < int (length c) - ?L"
    using window_count_iff [OF c16] long by simp
  have "int (length (context_part e q (ws ! k))) \<le> ?L" using c16 by (simp add: cp)
  with cov lt show False
    unfolding covers_def by (simp add: wk [symmetric]) (simp add: wk)
qed

lemma adjacent_overlap_value:
  assumes pi: "prepare_input e q c = Inr ws" and k: "Suc k < length ws"
  shows "length (context_part e q (ws ! k)) = nat (context_capacity e q)"
    and "length (context_part e q (ws ! Suc k)) = nat (context_capacity e q)"
    and "overlap e q (ws ! k) (ws ! Suc k) = context_capacity e q - context_capacity e q div 2"
proof -
  let ?L = "context_capacity e q"
  have c16: "16 \<le> ?L" using prepare_input_windows(1) [OF pi] .
  have len: "length ws = window_count e q c" using prepare_input_windows(2) [OF pi] .
  have k0: "k < length ws" using k by simp
  from window_slice_length [OF pi k0] obtain ni1 p1 where
    w1: "ws ! k = (ni1, p1, int k * (?L div 2))"
    and cp1: "context_part e q (ws ! k) = take (nat ?L) (drop (nat (int k * (?L div 2))) c)"
    by blast
  from window_slice_length [OF pi k] obtain ni2 p2 where
    w2: "ws ! Suc k = (ni2, p2, int (Suc k) * (?L div 2))"
    and cp2: "context_part e q (ws ! Suc k) = take (nat ?L) (drop (nat (int (Suc k) * (?L div 2))) c)"
    by blast
  have full2: "length (take (nat ?L) (drop (nat (int (Suc k) * (?L div 2))) c)) = nat ?L"
    using window_part_full [OF c16, of "Suc k" c] k len by simp
  have lt2: "int (Suc k) * (?L div 2) < max 1 (int (length c) - ?L)"
    using window_count_iff [OF c16, of "Suc k" c] k len by simp
  have "8 \<le> ?L div 2" using c16 by simp
  moreover have "0 \<le> int k * (?L div 2)" using c16 by simp
  moreover have "int (Suc k) * (?L div 2) = int k * (?L div 2) + ?L div 2"
    by (simp add: distrib_right)
  ultimately have "1 < int (Suc k) * (?L div 2)" by linarith
  with lt2 have "?L \<le> int (length c)" by simp
  then have full1: "length (take (nat ?L) (drop (nat (int k * (?L div 2))) c)) = nat ?L"
    using window_part_full [OF c16, of k c] k len by simp
  show l1: "length (context_part e q (ws ! k)) = nat ?L" using cp1 full1 by simp
  show l2: "length (context_part e q (ws ! Suc k)) = nat ?L" using cp2 full2 by simp
  have s: "int (Suc k) * (?L div 2) = int k * (?L div 2) + ?L div 2"
    by (simp add: distrib_right)
  have half: "0 \<le> ?L div 2" "?L div 2 \<le> ?L" using c16 by simp_all
  show "overlap e q (ws ! k) (ws ! Suc k) = ?L - ?L div 2"
    unfolding overlap_def l1 l2 using c16 half
    by (simp add: w1 w2 s del: of_nat_Suc)
qed


lemma demo_capacity [simp]:
  "context_capacity demo_env q = 17 - int (length q)"
  by (simp add: context_capacity_def demo_env_def)

lemma length3_cases: "length xs = 3 \<Longrightarrow> \<exists>a b c. xs = [a, b, c]"
  by (auto simp: numeral_3_eq_3 length_Suc_conv)

section \<open>Facts about the span search\<close>

lemma argmax_loop_spec:
  assumes "bi < length pre" and "pre ! bi = bv"
    and "\<forall>k<length pre. pre ! k \<le> bv" and "\<forall>k<bi. pre ! k < bv"
  shows "argmax_loop bi bv (length pre) xs < length (pre @ xs)
    \<and> (\<forall>k<length (pre @ xs). (pre @ xs) ! k \<le> (pre @ xs) ! argmax_loop bi bv (length pre) xs)
    \<and> (\<forall>k<argmax_loop bi bv (length pre) xs.
          (pre @ xs) ! k < (pre @ xs) ! argmax_loop bi bv (length pre) xs)"
  using assms
proof (induction xs arbitrary: pre bi bv)
  case Nil
  then show ?case by simp
next
  case (Cons x xs)
  show ?case
  proof (cases "bv < x")
    case True
    have a: "length pre < length (pre @ [x])" by simp
    have b: "(pre @ [x]) ! length pre = x" by simp
    have c: "\<forall>k<length (pre @ [x]). (pre @ [x]) ! k \<le> x"
      using Cons.prems(3) True by (auto simp: nth_append less_Suc_eq intro: less_imp_le order_le_less_trans)
    have d: "\<forall>k<length pre. (pre @ [x]) ! k < x"
      using Cons.prems(3) True by (auto simp: nth_append intro: order_le_less_trans)
    from Cons.IH [OF a b c d] True show ?thesis by simp
  next
    case False
    have a: "bi < length (pre @ [x])" using Cons.prems(1) by simp
    have b: "(pre @ [x]) ! bi = bv" using Cons.prems(1,2) by (simp add: nth_append)
    have c: "\<forall>k<length (pre @ [x]). (pre @ [x]) ! k \<le> bv"
      using Cons.prems(3) False by (auto simp: nth_append less_Suc_eq)
    have d: "\<forall>k<bi. (pre @ [x]) ! k < bv"
      using Cons.prems(1,4) by (auto simp: nth_append)
    from Cons.IH [OF a b c d] False show ?thesis by simp
  qed
qed

lemma np_argmax_spec:
  assumes "np_argmax xs = Inr r"
  shows "r < length xs" and "\<forall>k<length xs. xs ! k \<le> xs ! r" and "\<forall>k<r. xs ! k < xs ! r"
proof -
  from assms obtain x rest where xs: "xs = x # rest" and r: "r = argmax_loop 0 x 1 rest"
    by (auto simp: np_argmax_def split: list.splits)
  have "argmax_loop 0 x (length [x]) rest < length ([x] @ rest)
    \<and> (\<forall>k<length ([x] @ rest). ([x] @ rest) ! k \<le> ([x] @ rest) ! argmax_loop 0 x (length [x]) rest)
    \<and> (\<forall>k<argmax_loop 0 x (length [x]) rest.
          ([x] @ rest) ! k < ([x] @ rest) ! argmax_loop 0 x (length [x]) rest)"
    by (rule argmax_loop_spec) simp_all
  then show "r < length xs" and "\<forall>k<length xs. xs ! k \<le> xs ! r" and "\<forall>k<r. xs ! k < xs ! r"
    by (simp_all add: xs r)
qed

lemma np_argmax_nonempty: "xs \<noteq> [] \<Longrightarrow> \<exists>r. np_argmax xs = Inr r"
  by (cases xs) (simp_all add: np_argmax_def)

lemma np_argmax_empty: "np_argmax [] = Inl ValueError"
  by (simp add: np_argmax_def)

lemma concat_uniform:
  assumes "\<forall>r\<in>set m. length r = n"
  shows "length (concat m) = length m * n"
    and "i < length m \<Longrightarrow> j < n \<Longrightarrow> concat m ! (i * n + j) = m ! i ! j"
proof -
  show "length (concat m) = length m * n"
    using assms by (induction m) auto
  show "i < length m \<Longrightarrow> j < n \<Longrightarrow> concat m ! (i * n + j) = m ! i ! j"
    using assms
  proof (induction m arbitrary: i)
    case Nil
    then show ?case by simp
  next
    case (Cons r m)
    show ?case
    proof (cases i)
      case 0
      with Cons.prems show ?thesis by (simp add: nth_append)
    next
      case (Suc i')
      with Cons.prems have "concat m ! (i' * n + j) = m ! i' ! j"
        by (intro Cons.IH) auto
      with Suc Cons.prems show ?thesis by (simp add: nth_append add.assoc)
    qed
  qed
qed

lemma score_matrix_shape:
  "length (score_matrix col row) = length col"
  "\<forall>r\<in>set (score_matrix col row). length r = length row"
  by (auto simp: score_matrix_def np_tril_def np_triu_def np_matmul_col_row_def
      in_set_conv_nth nth_enumerate_eq)

lemma score_matrix_entry:
  assumes "i < length col" and "j < length row"
  shows "score_matrix col row ! i ! j = (if j < i \<or> i + 16 < j then 0 else col ! i * row ! j)"
  using assms
  by (simp add: score_matrix_def np_tril_def np_triu_def np_matmul_col_row_def nth_enumerate_eq)

lemma sum_list_exp_pos: "xs \<noteq> [] \<Longrightarrow> 0 < sum_list (map exp xs)" for xs :: "real list"
proof (induction xs)
  case Nil
  then show ?case by simp
next
  case (Cons x xs)
  have "0 \<le> sum_list (map exp xs)" by (rule sum_list_nonneg) auto
  moreover have "0 < exp x" by simp
  moreover have "sum_list (map exp (x # xs)) = exp x + sum_list (map exp xs)" by simp
  ultimately show ?case by linarith
qed

lemma exp_le_sum_list: "x \<in> set xs \<Longrightarrow> exp x \<le> sum_list (map exp xs)" for xs :: "real list"
proof (induction xs)
  case Nil
  then show ?case by simp
next
  case (Cons y ys)
  have nn: "0 \<le> sum_list (map exp ys)" by (rule sum_list_nonneg) auto
  show ?case
  proof (cases "x = y")
    case True
    with nn show ?thesis by simp
  next
    case False
    with Cons have "exp x \<le> sum_list (map exp ys)" by simp
    moreover have "0 < exp y" by simp
    moreover have "sum_list (map exp (y # ys)) = exp y + sum_list (map exp ys)" by simp
    ultimately show ?thesis by linarith
  qed
qed

lemma get_score_range:
  assumes "p \<in> set (get_score logits)"
  shows "0 < p" and "p \<le> 1"
proof -
  from assms obtain x where x: "x \<in> set logits" and p: "p = exp x / sum_list (map exp logits)"
    by (auto simp: get_score_def Let_def)
  from x have ne: "logits \<noteq> []" by auto
  have pos: "0 < sum_list (map exp logits)" using sum_list_exp_pos [OF ne] .
  show "0 < p" using pos by (simp add: p)
  show "p \<le> 1" using pos exp_le_sum_list [OF x] by (simp add: p)
qed

lemma length_get_score [simp]: "length (get_score logits) = length logits"
  by (simp add: get_score_def Let_def)

lemma set_py_slice: "set (py_slice i j xs) \<subseteq> set xs"
proof -
  have "set (take n (drop m xs)) \<subseteq> set xs" for n m
    using set_take_subset set_drop_subset by fastforce
  then show ?thesis by (simp add: py_slice_def Let_def)
qed

lemma find_best_answer_window_Inr:
  assumes "find_best_answer_window ss es cs ce = Inr (score, s, t)"
  shows "\<exists>f. np_argmax (concat (score_matrix (py_slice cs ce ss) (py_slice cs ce es))) = Inr f
     \<and> s = int (f div length (py_slice cs ce es))
     \<and> t = int (f mod length (py_slice cs ce es))
     \<and> score = score_matrix (py_slice cs ce ss) (py_slice cs ce es)
                  ! (f div length (py_slice cs ce es)) ! (f mod length (py_slice cs ce es))
     \<and> (ce - cs \<noteq> - 1 \<longrightarrow> int (length (py_slice cs ce ss)) = ce - cs
                            \<and> int (length (py_slice cs ce es)) = ce - cs)"
  using assms
  unfolding find_best_answer_window_def Let_def np_reshape_def np_get2_def
  by (auto split: sum.splits if_splits)

lemma flat_entry:
  assumes "i < length col" and "j < length row"
  shows "concat (score_matrix col row) ! (i * length row + j) = score_matrix col row ! i ! j"
  by (rule concat_uniform(2) [OF score_matrix_shape(2)])
    (use assms in \<open>simp_all add: score_matrix_shape(1)\<close>)

lemma flat_index:
  assumes "f < length col * length row"
  shows "0 < length row" and "f div length row < length col" and "f mod length row < length row"
    and "concat (score_matrix col row) ! f
         = score_matrix col row ! (f div length row) ! (f mod length row)"
proof -
  show r: "0 < length row" using assms by (cases "length row") auto
  show i: "f div length row < length col"
    using assms r by (simp add: less_mult_imp_div_less)
  show j: "f mod length row < length row" using r by simp
  have "concat (score_matrix col row) ! (f div length row * length row + f mod length row)
      = score_matrix col row ! (f div length row) ! (f mod length row)"
    by (rule flat_entry [OF i j])
  then show "concat (score_matrix col row) ! f
         = score_matrix col row ! (f div length row) ! (f mod length row)"
    by simp
qed

lemma length_flat: "length (concat (score_matrix col row)) = length col * length row"
  using concat_uniform(1) [OF score_matrix_shape(2)]
  by (simp add: score_matrix_shape(1))

lemma best_span:
  assumes "find_best_answer_window ss es cs ce = Inr (score, s, t)"
  shows "0 \<le> s" and "0 \<le> t"
    and "nat s < length (py_slice cs ce ss)" and "nat t < length (py_slice cs ce es)"
    and "score = score_matrix (py_slice cs ce ss) (py_slice cs ce es) ! nat s ! nat t"
    and "np_argmax (concat (score_matrix (py_slice cs ce ss) (py_slice cs ce es)))
           = Inr (nat s * length (py_slice cs ce es) + nat t)"
    and "ce - cs \<noteq> - 1 \<Longrightarrow> int (length (py_slice cs ce ss)) = ce - cs
                            \<and> int (length (py_slice cs ce es)) = ce - cs"
proof -
  let ?col = "py_slice cs ce ss" and ?row = "py_slice cs ce es"
  from find_best_answer_window_Inr [OF assms] obtain f where
    am: "np_argmax (concat (score_matrix ?col ?row)) = Inr f"
    and s: "s = int (f div length ?row)" and t: "t = int (f mod length ?row)"
    and sc: "score = score_matrix ?col ?row ! (f div length ?row) ! (f mod length ?row)"
    and len: "ce - cs \<noteq> - 1 \<longrightarrow> int (length ?col) = ce - cs \<and> int (length ?row) = ce - cs"
    by blast
  have f: "f < length ?col * length ?row"
    using np_argmax_spec(1) [OF am] by (simp add: length_flat)
  note fi = flat_index [OF f]
  show "0 \<le> s" "0 \<le> t" by (simp_all add: s t)
  show "nat s < length ?col" using fi(2) by (simp add: s)
  show "nat t < length ?row" using fi(3) by (simp add: t)
  show "score = score_matrix ?col ?row ! nat s ! nat t" by (simp add: sc s t)
  show "np_argmax (concat (score_matrix ?col ?row)) = Inr (nat s * length ?row + nat t)"
    by (simp add: am s t)
  show "int (length ?col) = ce - cs \<and> int (length ?row) = ce - cs" if "ce - cs \<noteq> - 1"
    using len that by simp
qed

lemma softmax_best_span:
  assumes run: "find_best_answer_window (get_score a) (get_score b) cs ce = Inr (score, s, t)"
  shows "s \<le> t" and "t \<le> s + 16"
    and "score = py_slice cs ce (get_score a) ! nat s * py_slice cs ce (get_score b) ! nat t"
    and "0 < score" and "score \<le> 1"
proof -
  let ?col = "py_slice cs ce (get_score a)" and ?row = "py_slice cs ce (get_score b)"
  let ?m = "score_matrix ?col ?row"
  note bs = best_span [OF run]
  have colpos: "0 < ?col ! i \<and> ?col ! i \<le> 1" if "i < length ?col" for i
  proof -
    have "?col ! i \<in> set ?col" using that by (rule nth_mem)
    then have "?col ! i \<in> set (get_score a)" by (rule subsetD [OF set_py_slice])
    then show ?thesis by (simp add: get_score_range)
  qed
  have rowpos: "0 < ?row ! j \<and> ?row ! j \<le> 1" if "j < length ?row" for j
  proof -
    have "?row ! j \<in> set ?row" using that by (rule nth_mem)
    then have "?row ! j \<in> set (get_score b)" by (rule subsetD [OF set_py_slice])
    then show ?thesis by (simp add: get_score_range)
  qed
  have c0: "0 < length ?col" and r0: "0 < length ?row" using bs(3,4) by auto
  have first: "0 < ?m ! 0 ! 0"
    using colpos [OF c0] rowpos [OF r0] by (simp add: score_matrix_entry [OF c0 r0])
  have "concat ?m ! (0 * length ?row + 0) = ?m ! 0 ! 0" by (rule flat_entry [OF c0 r0])
  moreover have "concat ?m ! 0 \<le> concat ?m ! (nat s * length ?row + nat t)"
    using np_argmax_spec(2) [OF bs(6)] c0 r0 by (simp add: length_flat)
  moreover have "concat ?m ! (nat s * length ?row + nat t) = ?m ! nat s ! nat t"
    by (rule flat_entry [OF bs(3,4)])
  ultimately have pos: "0 < ?m ! nat s ! nat t" using first by simp
  then show sp: "0 < score" using bs(5) by simp
  have keep: "\<not> (nat t < nat s \<or> nat s + 16 < nat t)"
    using pos unfolding score_matrix_entry [OF bs(3,4)] by (simp split: if_splits)
  show "s \<le> t" using keep bs(1,2) by linarith
  show "t \<le> s + 16" using keep bs(1,2) by linarith
  have "?m ! nat s ! nat t = ?col ! nat s * ?row ! nat t"
    unfolding score_matrix_entry [OF bs(3,4)] by (rule if_not_P [OF keep])
  then show eq: "score = ?col ! nat s * ?row ! nat t"
    using bs(5) by (simp only:)
  have "?col ! nat s * ?row ! nat t \<le> 1 * 1"
    using colpos [OF bs(3)] rowpos [OF bs(4)] by (intro mult_mono) auto
  then show "score \<le> 1" using eq by simp
qed

lemma find_best_answer_window_runs:
  assumes "0 \<le> cs" and "cs < ce" and "ce \<le> int (length ss)" and "ce \<le> int (length es)"
  shows "\<exists>score s t. find_best_answer_window ss es cs ce = Inr (score, s, t)"
proof -
  let ?col = "py_slice cs ce ss" and ?row = "py_slice cs ce es"
  have lc: "int (length ?col) = ce - cs" and lr: "int (length ?row) = ce - cs"
    using assms by (simp_all add: py_slice_nonneg)
  have "0 < length ?col" and "0 < length ?row" using lc lr assms(2) by linarith+
  then have "0 < length (concat (score_matrix ?col ?row))" by (simp add: length_flat)
  then have "concat (score_matrix ?col ?row) \<noteq> []"
    by simp
  then obtain f where am: "np_argmax (concat (score_matrix ?col ?row)) = Inr f"
    using np_argmax_nonempty by blast
  have f: "f < length ?col * length ?row"
    using np_argmax_spec(1) [OF am] by (simp add: length_flat)
  note fi = flat_index [OF f]
  have row_len: "length (score_matrix ?col ?row ! (f div length ?row)) = length ?row"
    using score_matrix_shape(2) [of ?col ?row] fi(2)
    by (simp add: score_matrix_shape(1))
  show ?thesis
    unfolding find_best_answer_window_def Let_def np_reshape_def np_get2_def
    using assms(2) lc lr am fi(2,3) row_len
    by (simp add: score_matrix_shape(1))
qed

lemma postprocess_Inr:
  assumes "postprocess e output_start output_end question_tokens offsets padding start_idx
           = Inr (score, a, b)"
  shows "\<exists>s t r1 r2.
      find_best_answer_window (get_score output_start) (get_score output_end)
          (int (length question_tokens) + 2) (input_size e - padding - 1) = Inr (score, s, t)
      \<and> py_index offsets (s + start_idx) = Inr r1 \<and> a = fst r1
      \<and> py_index offsets (t + start_idx) = Inr r2 \<and> b = snd r2"
proof -
  let ?fb = "find_best_answer_window (get_score output_start) (get_score output_end)
          (int (length question_tokens) + 2) (input_size e - padding - 1)"
  from assms obtain sc s t where fb: "?fb = Inr (sc, s, t)"
    unfolding postprocess_def Let_def by (cases ?fb) auto
  from assms fb obtain r1 where r1: "py_index offsets (s + start_idx) = Inr r1"
    unfolding postprocess_def Let_def by (cases "py_index offsets (s + start_idx)") auto
  from assms fb r1 obtain r2 where r2: "py_index offsets (t + start_idx) = Inr r2"
    unfolding postprocess_def Let_def by (cases "py_index offsets (t + start_idx)") auto
  from assms fb r1 r2 have "sc = score" "a = fst r1" "b = snd r2"
    unfolding postprocess_def Let_def by simp_all
  with fb r1 r2 show ?thesis by blast
qed

lemma sum_list_update_real:
  fixes xs :: "real list"
  shows "k < length xs \<Longrightarrow> sum_list (xs[k := x]) = sum_list xs + x - xs ! k"
proof (induction xs arbitrary: k)
  case Nil
  then show ?case by simp
next
  case (Cons y ys)
  then show ?case by (cases k) simp_all
qed

lemma get_score_peak:
  assumes "k < n"
  shows "get_score (peak_logits n k) = (replicate n (1 / (real n + 1)))[k := 2 / (real n + 1)]"
proof -
  have m: "map exp (peak_logits n k) = (replicate n 1)[k := 2]"
    by (simp add: peak_logits_def map_update)
  have s: "sum_list ((replicate n (1::real))[k := 2]) = real n + 1"
    using assms by (simp add: sum_list_update_real sum_list_replicate)
  show ?thesis
    unfolding get_score_def Let_def m s by (simp add: map_update)
qed

lemma get_score_zeros: "get_score (replicate n 0) = replicate n (1 / real n)"
  by (simp add: get_score_def Let_def sum_list_replicate)

lemma tie_run:
  "find_best_answer_window [1/4, 1/4, 1/4, 1/4] [1/8, 1/4, 1/4, 3/8] 1 4 = Inr (3/32, 0, 2)"
  by (simp add: find_best_answer_window_def py_slice_def np_reshape_def score_matrix_def
      np_matmul_col_row_def np_tril_def np_triu_def np_argmax_def np_get2_def Let_def)

lemma peak_scores_run: "find_best_answer_window ((replicate 20 (1 / 21))[2 := 2 / 21])
    ((replicate 20 (1 / 21))[18 := 2 / 21]) 2 19 = Inr (4 / 441, 0, 16)"
  by code_simp


section \<open>Facts about the pipeline\<close>





lemma demo_tokens_q: "char_tokens ''q'' = ([113], [(0, 1)])"
  by (simp add: char_tokens_def)

lemma demo_tokens_space: "char_tokens '' '' = ([], [])"
  by (simp add: char_tokens_def)


lemma demo_model: "compiled_model demo_env ni = Inr (replicate 20 0, replicate 20 0)"
  by (simp add: demo_env_def)


lemma uniform_empty_window:
  "find_best_answer_window (replicate 20 (1 / 20)) (replicate 20 (1 / 20)) 3 3
     = Inl ValueError"
  by code_simp


lemma demo_postprocess_empty:
  "postprocess demo_env (replicate 20 0) (replicate 20 0) [113] [] 16 0 = Inl ValueError"
  using uniform_empty_window
  by (simp add: postprocess_def get_score_zeros demo_env_def Let_def)


lemma demo_windows_empty:
  "\<exists>ni. prepare_input demo_env [113] [] = Inr [(ni, 16, 0)]"
proof -
  obtain ws where run: "prepare_input demo_env [113] [] = Inr ws"
    by (simp add: prepare_input_eq)
  have len: "length ws = 1"
    using prepare_input_windows(2) [OF run] by (simp add: window_count_def)
  then obtain w0 where ws: "ws = [w0]"
    by (auto simp: length_Suc_conv)
  have L: "context_capacity demo_env [113] = input_size demo_env - int (length [113::int]) - 3"
    by (simp add: context_capacity_def)
  obtain ni0 p0 s0 where w0: "w0 = (ni0, p0, s0)" by (cases w0) auto
  have m0: "make_window demo_env [113] [] (context_capacity demo_env [113])
      (int 0 * (context_capacity demo_env [113] div 2)) = (ni0, p0, s0)"
    using prepare_input_windows(3) [OF run, of 0] by (simp add: ws w0)
  have "s0 = 0" and "p0 = 16"
    using make_window_fields(1,2) [OF _ _ L refl m0] by simp_all
  then show ?thesis using run ws w0 by simp
qed


lemma demo_blank_context:
  "get_best_answer demo_env ''q'' '' '' = Inl ValueError"
proof -
  obtain ni where pi: "prepare_input demo_env [113] [] = Inr [(ni, 16, 0)]"
    using demo_windows_empty by blast
  have wr: "window_results demo_env [113] [] [(ni, 16, 0)] = Inl ValueError"
    by (simp add: demo_model demo_postprocess_empty)
  have te: "text_to_tokens demo_env = char_tokens" and lo: "str_lower demo_env = (\<lambda>s. s)"
    by (simp_all add: demo_env_def)
  show ?thesis
    by (simp only: get_best_answer_def Let_def te lo demo_tokens_q demo_tokens_space
        prod.case pi sum.case wr)
qed

lemma demo_load_blank: "load_context demo_env ['' ''] = '' ''"
  by (simp add: load_context_def demo_env_def)

lemma empty_string_reported:
  "run_question_answering e sources example_question stdin = Inr EmptyContextReported
     \<longleftrightarrow> load_context e sources = []"
  unfolding run_question_answering_def Let_def
  by (auto split: option.splits sum.splits)

lemma py_slice_same: "py_slice i i xs = []"
  by (simp add: py_slice_def Let_def)

lemma find_best_answer_window_empty:
  "find_best_answer_window ss es cs cs = Inl ValueError"
  by (simp add: find_best_answer_window_def py_slice_same np_reshape_def score_matrix_def
      np_matmul_col_row_def np_tril_def np_triu_def np_argmax_def)

lemma tokenless_window:
  assumes cap: "16 \<le> input_size e - int (length qt) - 3"
  shows "\<exists>ni. prepare_input e qt [] = Inr [(ni, input_size e - int (length qt) - 3, 0)]"
proof -
  have c16: "16 \<le> context_capacity e qt" using cap by (simp add: context_capacity_def)
  obtain ws where run: "prepare_input e qt [] = Inr ws"
    using c16 by (simp add: prepare_input_eq)
  have s8: "8 \<le> context_capacity e qt div 2" using c16 by simp
  have "(context_capacity e qt div 2) div (context_capacity e qt div 2) = 1"
    using s8 by simp
  then have len: "length ws = 1"
    using prepare_input_windows(2) [OF run] c16 by (simp add: window_count_def)
  then obtain w0 where ws: "ws = [w0]"
    by (auto simp: length_Suc_conv)
  have L: "context_capacity e qt = input_size e - int (length qt) - 3"
    by (simp add: context_capacity_def)
  obtain ni0 p0 s0 where w0: "w0 = (ni0, p0, s0)" by (cases w0) auto
  have m0: "make_window e qt [] (context_capacity e qt)
      (int 0 * (context_capacity e qt div 2)) = (ni0, p0, s0)"
    using prepare_input_windows(3) [OF run, of 0] by (simp add: ws w0)
  have "s0 = 0" and "p0 = context_capacity e qt"
    using make_window_fields(1,2) [OF _ _ L refl m0] c16 by simp_all
  then show ?thesis using run ws w0 L by simp
qed

lemma tokenless_context_crashes:
  assumes ctx: "load_context e sources \<noteq> []"
    and none: "fst (text_to_tokens e (str_lower e (load_context e sources))) = []"
    and cap: "16 \<le> input_size e - int (length (fst (text_to_tokens e (str_lower e q)))) - 3"
    and model: "\<And>ni. \<exists>out. compiled_model e ni = Inr out"
  shows "run_question_answering e sources (Some q) stdin = Inl ValueError"
proof -
  let ?ctx = "load_context e sources"
  let ?qt = "fst (text_to_tokens e (str_lower e q))"
  let ?offs = "snd (text_to_tokens e (str_lower e ?ctx))"
  obtain ni where pi: "prepare_input e ?qt [] = Inr [(ni, input_size e - int (length ?qt) - 3, 0)]"
    using tokenless_window [OF cap] by blast
  obtain os oe where m: "compiled_model e ni = Inr (os, oe)"
    using model [of ni] by (metis surj_pair)
  have ce: "input_size e - (input_size e - int (length ?qt) - 3) - 1 = int (length ?qt) + 2"
    by simp
  have pp: "postprocess e os oe ?qt ?offs (input_size e - int (length ?qt) - 3) 0 = Inl ValueError"
    unfolding postprocess_def Let_def ce by (simp add: find_best_answer_window_empty)
  have wr: "window_results e ?qt ?offs [(ni, input_size e - int (length ?qt) - 3, 0)]
      = Inl ValueError"
    by (simp add: m pp)
  have "get_best_answer e q ?ctx = Inl ValueError"
    unfolding get_best_answer_def Let_def case_prod_beta none
    by (simp only: pi sum.case wr)
  then show ?thesis
    using ctx by (simp add: run_question_answering_def)
qed

section \<open>Windowing: when it fails\<close>

text \<open>
  Claim C2. For every question-token sequence and every context, \<open>prepare_input\<close> raises
  its input-too-long error (\<open>RuntimeError\<close>) if and only if
  \<open>input_size - len(question_tokens) - 3 < 16\<close>, it raises nothing else, and whenever
  \<open>input_size - len(question_tokens) - 3 \<ge> 16\<close> it succeeds and yields at least one
  window.
\<close>

theorem prepare_input_raises_iff:
  "(prepare_input e q c = Inl RuntimeError \<longleftrightarrow> input_size e - int (length q) - 3 < 16)
   \<and> ((\<exists>err. prepare_input e q c = Inl err) \<longleftrightarrow> input_size e - int (length q) - 3 < 16)
   \<and> (16 \<le> input_size e - int (length q) - 3 \<longrightarrow>
        (\<exists>ws. prepare_input e q c = Inr ws \<and> ws \<noteq> []))"
proof -
  have "ws \<noteq> []" if "prepare_input e q c = Inr ws" for ws
    using prepare_input_windows(4) [OF that] .
  then show ?thesis
    by (auto simp: prepare_input_eq context_capacity_def)
qed

text \<open>
  Witness for C2: with an input size of 20, a question of two tokens leaves 15 < 16
  places and is refused; a question of one token leaves 16 and is accepted.
\<close>

theorem prepare_input_raises_iff_witness:
  "prepare_input demo_env [1, 2] [5] = Inl RuntimeError
   \<and> (\<exists>ws. prepare_input demo_env [7] [5] = Inr ws \<and> ws \<noteq> [])"
  using prepare_input_raises_iff [of demo_env "[1, 2]" "[5]"]
    prepare_input_raises_iff [of demo_env "[7]" "[5]"]
  by (simp add: demo_env_def)

section \<open>Windowing: the layout of a window\<close>

text \<open>
  Claim C6. Every window \<open>prepare_input\<close> yields has the input ids
  \<open>[CLS] + question_tokens + [SEP] + context_slice + [SEP]\<close>, where the slice is
  \<open>context_tokens[start:start + context_len]\<close>, followed by \<open>padding\<close> pad tokens, and
  is exactly \<open>input_size\<close> long; its attention mask is 1 over the tokens before the
  padding and 0 over the padding; its segment mask is 0 over \<open>[CLS] + question + [SEP]\<close>,
  1 over \<open>context_slice + [SEP]\<close> and 0 over the padding.
\<close>

theorem prepare_input_window_layout:
  assumes pi: "prepare_input e q c = Inr ws" and w: "(ni, padding, start) \<in> set ws"
  shows "\<exists>part. part = py_slice start (start + (input_size e - int (length q) - 3)) c
      \<and> context_part e q (ni, padding, start) = part
      \<and> input_ids ni = [cls_token e] @ q @ [sep_token e] @ part @ [sep_token e]
                         @ replicate (nat padding) (pad_token e)
      \<and> int (length (input_ids ni)) = input_size e
      \<and> 0 \<le> padding
      \<and> attention_mask ni = replicate (length q + length part + 3) 1 @ replicate (nat padding) 0
      \<and> token_type_ids ni = replicate (length q + 2) 0 @ replicate (length part + 1) 1
                         @ replicate (nat padding) 0"
proof -
  let ?L = "context_capacity e q"
  have c16: "16 \<le> ?L" using prepare_input_windows(1) [OF pi] .
  from prepare_input_member [OF pi w] obtain k where k: "k < window_count e q c"
    and mw: "make_window e q c ?L (int k * (?L div 2)) = (ni, padding, start)" by metis
  have st0: "0 \<le> int k * (?L div 2)" using c16 by simp
  have L0: "0 \<le> ?L" using c16 by simp
  have L: "?L = input_size e - int (length q) - 3" by (simp add: context_capacity_def)
  define part where "part = take (nat ?L) (drop (nat (int k * (?L div 2))) c)"
  note f = make_window_fields [OF st0 L0 L part_def mw]
  have sl: "py_slice start (start + (input_size e - int (length q) - 3)) c = part"
    using st0 L0 f(1) by (simp add: py_slice_nonneg part_def L [symmetric])
  have cp: "context_part e q (ni, padding, start) = part"
    using context_part_window [OF st0 L0 L mw] by (simp add: part_def)
  have len: "int (length (input_ids ni)) = input_size e"
    using f(2,3) L by (simp add: f(4))
  show ?thesis
    using sl cp len f(3,4,5,6) by blast
qed

text \<open>
  Witness for C6: input size 20, the question \<open>[7]\<close> and the context \<open>[5, 6]\<close> give one
  window with 14 padding tokens.
\<close>

theorem prepare_input_window_layout_witness:
  "\<exists>ni. prepare_input demo_env [7] [5, 6] = Inr [(ni, 14, 0)]
     \<and> input_ids ni = [101, 7, 102, 5, 6, 102] @ replicate 14 0
     \<and> length (input_ids ni) = 20
     \<and> attention_mask ni = [1, 1, 1, 1, 1, 1] @ replicate 14 0
     \<and> token_type_ids ni = [0, 0, 0, 1, 1, 1] @ replicate 14 0"
proof -
  obtain ni where run: "prepare_input demo_env [7] [5, 6] = Inr [(ni, 14, 0)]"
    by (simp add: prepare_input_def py_range_def make_window_def pad_def py_slice_def
        demo_env_def Let_def)
  have sl: "py_slice 0 (0 + (input_size demo_env - int (length [7::int]) - 3)) [5, 6::int] = [5, 6]"
    by (simp add: py_slice_def demo_env_def)
  from prepare_input_window_layout [OF run, of ni 14 0]
  have "input_ids ni = [101, 7, 102, 5, 6, 102] @ replicate 14 0
     \<and> length (input_ids ni) = 20
     \<and> attention_mask ni = [1, 1, 1, 1, 1, 1] @ replicate 14 0
     \<and> token_type_ids ni = [0, 0, 0, 1, 1, 1] @ replicate 14 0"
    unfolding sl by (simp add: demo_env_def eval_nat_numeral)
  with run show ?thesis by blast
qed

section \<open>Windowing: which context tokens reach the model\<close>

text \<open>
  Claim C1 says that every context token lies in the slice of at least one window and
  that the last window reaches the end of the context. The loop of \<open>prepare_input\<close> stops
  at \<open>len(context_tokens) - context_len\<close>, so with a context longer than \<open>context_len\<close> the
  last start is below that bound and the last slice ends before the context does
  (lemma \<open>tail_not_covered\<close>). Evaluated at input size 20, a question of one token
  (\<open>context_len = 16\<close>) and a context of 17 tokens: one window is yielded, the token
  with index 15 is in it and the token with index 16 is in no window. Likewise at input
  size 384 with a question of 10 tokens (\<open>context_len = 371\<close>) and a context of 372
  tokens: one window, and the last token is in none.
\<close>

theorem prepare_input_drops_tail:
  "(\<exists>ws. prepare_input demo_env [7] (map int [0..<17]) = Inr ws \<and> length ws = 1
      \<and> covered_by_any demo_env [7] ws 15
      \<and> \<not> covered_by_any demo_env [7] ws 16)
   \<and> (\<exists>ws. prepare_input (demo_env\<lparr>input_size := 384\<rparr>) (replicate 10 2054)
              (map int [0..<372]) = Inr ws
      \<and> length ws = 1
      \<and> \<not> covered_by_any (demo_env\<lparr>input_size := 384\<rparr>) (replicate 10 2054) ws 371)"
proof -
  obtain ws where run: "prepare_input demo_env [7] (map int [0..<17]) = Inr ws"
    by (simp add: prepare_input_eq)
  have len: "length ws = 1"
    using prepare_input_windows(2) [OF run] by (simp add: window_count_def)
  have "\<not> covered_by_any demo_env [7] ws (int (length (map int [0..<17])) - 1)"
    by (rule tail_not_covered [OF run]) simp
  then have no: "\<not> covered_by_any demo_env [7] ws 16" by simp
  from window_slice_length [OF run, of 0] len obtain ni padding where
    w0: "ws ! 0 = (ni, padding, 0)"
    and cp: "length (context_part demo_env [7] (ws ! 0)) = 16"
    by auto
  have c0: "covers demo_env [7] 15 (ws ! 0)"
    unfolding covers_def using cp by (simp add: w0 [symmetric]) (simp add: w0)
  obtain w where "ws = [w]" using len by (cases ws) auto
  with c0 have "covered_by_any demo_env [7] ws 15"
    by (simp add: covered_by_any_def)
  with run len no have small: "\<exists>ws. prepare_input demo_env [7] (map int [0..<17]) = Inr ws
      \<and> length ws = 1 \<and> covered_by_any demo_env [7] ws 15 \<and> \<not> covered_by_any demo_env [7] ws 16"
    by blast
  let ?e = "demo_env\<lparr>input_size := 384\<rparr>" and ?q = "replicate 10 (2054::int)"
  have cap: "context_capacity ?e ?q = 371" by (simp add: context_capacity_def)
  obtain ws' where run': "prepare_input ?e ?q (map int [0..<372]) = Inr ws'"
    by (simp add: prepare_input_eq cap)
  have len': "length ws' = 1"
    using prepare_input_windows(2) [OF run'] by (simp add: window_count_def cap)
  have "\<not> covered_by_any ?e ?q ws' (int (length (map int [0..<372])) - 1)"
    by (rule tail_not_covered [OF run']) (simp add: cap)
  then have "\<not> covered_by_any ?e ?q ws' 371" by simp
  with run' len' have large: "\<exists>ws. prepare_input ?e ?q (map int [0..<372]) = Inr ws
      \<and> length ws = 1 \<and> \<not> covered_by_any ?e ?q ws 371"
    by blast
  from small large show ?thesis by (rule conjI)
qed

section \<open>Windowing: the overlap of neighbouring windows\<close>

text \<open>
  Claim C5, as amended. For every pair of neighbouring windows, the final window
  excepted, the slices share exactly \<open>context_len - context_len // 2\<close> token positions:
  \<open>context_len // 2\<close> when \<open>context_len\<close> is even, one more when it is odd.
\<close>

theorem adjacent_windows_overlap:
  assumes "prepare_input e q c = Inr ws" and "Suc (Suc k) < length ws"
  shows "overlap e q (ws ! k) (ws ! Suc k) = context_capacity e q - context_capacity e q div 2"
proof -
  from assms(2) have "Suc k < length ws" by simp
  from adjacent_overlap_value(3) [OF assms(1) this] show ?thesis .
qed

text \<open>
  Witness for C5: input size 20, a question of one token (\<open>context_len = 16\<close>) and 33
  context tokens give three windows; the first two share 8 positions.
\<close>

theorem adjacent_windows_overlap_witness:
  "\<exists>ws. prepare_input demo_env [7] (map int [0..<33]) = Inr ws \<and> length ws = 3
      \<and> overlap demo_env [7] (ws ! 0) (ws ! 1) = 8"
proof -
  obtain ws where run: "prepare_input demo_env [7] (map int [0..<33]) = Inr ws"
    by (simp add: prepare_input_eq)
  have len: "length ws = 3"
    using prepare_input_windows(2) [OF run] by (simp add: window_count_def)
  from adjacent_windows_overlap [OF run, of 0] len
  have "overlap demo_env [7] (ws ! 0) (ws ! 1) = 8" by simp
  with run len show ?thesis by blast
qed

text \<open>
  Counterexample to C5 as stated (an overlap of exactly \<open>context_len // 2\<close>): input size
  20 and an empty question give \<open>context_len = 17\<close>; 34 context tokens give three windows
  with the slices [0, 17), [8, 25) and [16, 33). The first pair, which does not involve
  the final window, shares 9 positions, not \<open>17 // 2 = 8\<close>; so does the second.
\<close>

theorem overlap_odd_capacity_counterexample:
  "map_sum id (adjacent_overlaps demo_env []) (prepare_input demo_env [] (map int [0..<34]))
     = Inr [9, 9]
   \<and> (input_size demo_env - int (length ([] :: int list)) - 3) div 2 = 8"
proof -
  obtain ws where run: "prepare_input demo_env [] (map int [0..<34]) = Inr ws"
    by (simp add: prepare_input_eq)
  have len: "length ws = 3"
    using prepare_input_windows(2) [OF run] by (simp add: window_count_def)
  then obtain w0 w1 w2 where ws: "ws = [w0, w1, w2]"
    using length3_cases by blast
  have o1: "overlap demo_env [] w0 w1 = 9"
    using adjacent_overlap_value(3) [OF run, of 0] by (simp add: ws)
  have o2: "overlap demo_env [] w1 w2 = 9"
    using adjacent_overlap_value(3) [OF run, of 1] by (simp add: ws)
  have "adjacent_overlaps demo_env [] ws = [9, 9]"
    using o1 o2 by (simp add: ws)
  then have "map_sum id (adjacent_overlaps demo_env [])
      (prepare_input demo_env [] (map int [0..<34])) = Inr [9, 9]"
    by (simp add: run)
  moreover have "(input_size demo_env - int (length ([] :: int list)) - 3) div 2 = 8"
    by (simp add: demo_env_def)
  ultimately show ?thesis by blast
qed

section \<open>Span search: which entry is selected\<close>

text \<open>
  Claim C7. The span \<open>find_best_answer_window\<close> returns is the argmax of the masked score
  matrix with ties broken in row-major order: the returned score is the entry at the
  returned pair, no entry is larger, and every entry equal to it has a larger start index,
  or the same start index and an end index at least as large. Equivalently, the flat
  index \<open>start * columns + end\<close> is the first index of the flattened matrix that attains
  the maximum.
\<close>

theorem find_best_answer_window_first_argmax:
  assumes "find_best_answer_window start_score end_score cs ce = Inr (score, s, t)"
  shows "0 \<le> s \<and> 0 \<le> t
     \<and> nat s < length (py_slice cs ce start_score) \<and> nat t < length (py_slice cs ce end_score)
     \<and> score = score_matrix (py_slice cs ce start_score) (py_slice cs ce end_score) ! nat s ! nat t
     \<and> (\<forall>i j. i < length (py_slice cs ce start_score) \<longrightarrow> j < length (py_slice cs ce end_score) \<longrightarrow>
           score_matrix (py_slice cs ce start_score) (py_slice cs ce end_score) ! i ! j \<le> score
           \<and> (score_matrix (py_slice cs ce start_score) (py_slice cs ce end_score) ! i ! j = score
                \<longrightarrow> nat s < i \<or> (nat s = i \<and> nat t \<le> j)))
     \<and> nat s * length (py_slice cs ce end_score) + nat t
           < length (concat (score_matrix (py_slice cs ce start_score) (py_slice cs ce end_score)))
     \<and> concat (score_matrix (py_slice cs ce start_score) (py_slice cs ce end_score))
           ! (nat s * length (py_slice cs ce end_score) + nat t) = score
     \<and> (\<forall>k < length (concat (score_matrix (py_slice cs ce start_score) (py_slice cs ce end_score))).
           concat (score_matrix (py_slice cs ce start_score) (py_slice cs ce end_score)) ! k \<le> score)
     \<and> (\<forall>k < nat s * length (py_slice cs ce end_score) + nat t.
           concat (score_matrix (py_slice cs ce start_score) (py_slice cs ce end_score)) ! k < score)"
proof -
  let ?col = "py_slice cs ce start_score" and ?row = "py_slice cs ce end_score"
  let ?m = "score_matrix ?col ?row"
  let ?f = "nat s * length ?row + nat t"
  note b = best_span [OF assms]
  note am = np_argmax_spec [OF b(6)]
  have flat_f: "concat ?m ! ?f = score"
    using flat_entry [OF b(3,4)] b(5) by simp
  have entry: "?m ! i ! j \<le> score \<and> (?m ! i ! j = score \<longrightarrow> nat s < i \<or> (nat s = i \<and> nat t \<le> j))"
    if i: "i < length ?col" and j: "j < length ?row" for i j
  proof -
    have k: "i * length ?row + j < length (concat ?m)"
    proof -
      have "i * length ?row + j < i * length ?row + length ?row" using j by simp
      also have "\<dots> = Suc i * length ?row" by simp
      also have "\<dots> \<le> length ?col * length ?row"
        using i by (intro mult_le_mono1) simp
      finally show ?thesis by (simp add: length_flat)
    qed
    have e: "concat ?m ! (i * length ?row + j) = ?m ! i ! j"
      by (rule flat_entry [OF i j])
    have le: "?m ! i ! j \<le> score" using am(2) k e flat_f by auto
    have "nat s < i \<or> (nat s = i \<and> nat t \<le> j)" if eq: "?m ! i ! j = score"
    proof (rule ccontr)
      assume n: "\<not> (nat s < i \<or> (nat s = i \<and> nat t \<le> j))"
      then have "i < nat s \<or> (i = nat s \<and> j < nat t)" by auto
      then have "i * length ?row + j < ?f"
      proof
        assume "i < nat s"
        then have "Suc i * length ?row \<le> nat s * length ?row"
          by (intro mult_le_mono1) simp
        with j show ?thesis by simp
      next
        assume "i = nat s \<and> j < nat t"
        then show ?thesis by simp
      qed
      with am(3) have "concat ?m ! (i * length ?row + j) < concat ?m ! ?f" by blast
      with e flat_f eq show False by simp
    qed
    with le show ?thesis by blast
  qed
  show ?thesis
    using b(1,2,3,4,5) entry am(1) flat_f am(2,3) by (simp add: flat_f)
qed

text \<open>
  Witness for C7: three entries of the last column tie at 3/32 and the first of them,
  (0, 2), is returned.
\<close>

theorem find_best_answer_window_first_argmax_witness:
  "find_best_answer_window [1/4, 1/4, 1/4, 1/4] [1/8, 1/4, 1/4, 3/8] 1 4 = Inr (3/32, 0, 2)
   \<and> score_matrix (py_slice 1 4 [1/4, 1/4, 1/4, 1/4]) (py_slice 1 4 [1/8, 1/4, 1/4, 3/8]) ! 1 ! 2
       \<le> 3/32"
proof -
  note t = find_best_answer_window_first_argmax [OF tie_run]
  then have "\<forall>i j. i < length (py_slice 1 4 [1/4, 1/4, 1/4, 1/4 :: real])
      \<longrightarrow> j < length (py_slice 1 4 [1/8, 1/4, 1/4, 3/8 :: real])
      \<longrightarrow> score_matrix (py_slice 1 4 [1/4, 1/4, 1/4, 1/4]) (py_slice 1 4 [1/8, 1/4, 1/4, 3/8]) ! i ! j
          \<le> 3/32"
    by blast
  then have "score_matrix (py_slice 1 4 [1/4, 1/4, 1/4, 1/4]) (py_slice 1 4 [1/8, 1/4, 1/4, 3/8]) ! 1 ! 2
       \<le> 3/32"
    by (simp add: py_slice_def)
  with tie_run show ?thesis by simp
qed

section \<open>Span search: the range of the score\<close>

text \<open>
  Claim C9 says that the score returned for a window lies in [0, 1] for all logits,
  being a product of two softmax probabilities. In exact arithmetic that is so: with
  \<open>get_score\<close> over the reals the score \<open>postprocess\<close> returns is such a product and lies
  in [0, 1], as the lemma below shows. The source computes the softmax in floating point
  without subtracting the maximum, and there the claim fails: when every start and end
  logit is 1000, \<open>np.exp\<close> gives \<open>inf\<close>, every probability is \<open>inf / inf = nan\<close>, the kept
  entries of the score matrix are \<open>nan\<close>, \<open>argmax\<close> returns the first of them and the score
  is \<open>nan\<close>. The real-valued model cannot show that run; the other facts about the span
  search do not depend on the range of the scores.
\<close>

lemma exact_score_range:
  assumes "postprocess e output_start output_end question_tokens offsets padding start_idx
           = Inr (score, a, b)"
  shows "0 \<le> score \<and> score \<le> 1
     \<and> (\<exists>p1\<in>set (get_score output_start). \<exists>p2\<in>set (get_score output_end). score = p1 * p2)"
proof -
  let ?cs = "int (length question_tokens) + 2" and ?ce = "input_size e - padding - 1"
  from postprocess_Inr [OF assms] obtain s t where
    run: "find_best_answer_window (get_score output_start) (get_score output_end) ?cs ?ce
          = Inr (score, s, t)"
    by blast
  note sp = softmax_best_span [OF run]
  note bs = best_span [OF run]
  have "py_slice ?cs ?ce (get_score output_start) ! nat s \<in> set (get_score output_start)"
    by (rule subsetD [OF set_py_slice]) (rule nth_mem [OF bs(3)])
  moreover have "py_slice ?cs ?ce (get_score output_end) ! nat t \<in> set (get_score output_end)"
    by (rule subsetD [OF set_py_slice]) (rule nth_mem [OF bs(4)])
  ultimately have "\<exists>p1\<in>set (get_score output_start). \<exists>p2\<in>set (get_score output_end).
      score = p1 * p2"
    using sp(3) by blast
  with sp(4,5) show ?thesis by simp
qed

section \<open>Span search: the span lies in the window\<close>

text \<open>
  Claim C10. For every non-empty context range \<open>[context_start_idx, context_end_idx)\<close>
  inside the logit vectors and all real logits, \<open>find_best_answer_window\<close> applied to the
  softmax scores returns indices with
  \<open>0 \<le> max_start \<le> max_end < context_end_idx - context_start_idx\<close>; so whenever the
  window's slice \<open>[start, start + (context_end_idx - context_start_idx))\<close> lies inside the
  tokenization, both character-offset reads of \<open>postprocess\<close> are in range.
\<close>

theorem find_best_answer_window_span_in_slice:
  assumes "0 \<le> cs" and "cs < ce"
    and "ce \<le> int (length output_start)" and "ce \<le> int (length output_end)"
  shows "\<exists>score s t.
     find_best_answer_window (get_score output_start) (get_score output_end) cs ce
       = Inr (score, s, t)
     \<and> 0 \<le> s \<and> s \<le> t \<and> t < ce - cs
     \<and> (\<forall>offsets start. 0 \<le> start \<longrightarrow> start + (ce - cs) \<le> int (length offsets) \<longrightarrow>
           py_index offsets (s + start) = Inr (offsets ! nat (s + start))
           \<and> py_index offsets (t + start) = Inr (offsets ! nat (t + start)))"
proof -
  from find_best_answer_window_runs [of cs ce "get_score output_start" "get_score output_end"] assms
  obtain score s t where
    run: "find_best_answer_window (get_score output_start) (get_score output_end) cs ce
          = Inr (score, s, t)"
    by auto
  note sp = softmax_best_span [OF run]
  note bs = best_span [OF run]
  have "int (length (py_slice cs ce (get_score output_end))) = ce - cs"
    using bs(7) assms(2) by simp
  then have t: "t < ce - cs" using bs(2,4) by linarith
  have look: "\<forall>offsets start. 0 \<le> start \<longrightarrow> start + (ce - cs) \<le> int (length offsets) \<longrightarrow>
           py_index offsets (s + start) = Inr (offsets ! nat (s + start))
           \<and> py_index offsets (t + start) = Inr (offsets ! nat (t + start))"
    using t sp(1) bs(1) by (simp add: py_index_def Let_def)
  show ?thesis
    by (rule exI [of _ score], rule exI [of _ s], rule exI [of _ t])
      (use run bs(1) sp(1) t look in \<open>intro conjI\<close>)
qed

text \<open>
  Witness for C10: all-zero logits of length 20 and the context range [3, 5).
\<close>

theorem find_best_answer_window_span_in_slice_witness:
  "\<exists>score s t.
     find_best_answer_window (get_score (replicate 20 0)) (get_score (replicate 20 0)) 3 5
       = Inr (score, s, t)
     \<and> 0 \<le> s \<and> s \<le> t \<and> t < 2"
proof -
  have "\<exists>score s t.
     find_best_answer_window (get_score (replicate 20 0)) (get_score (replicate 20 0)) 3 5
       = Inr (score, s, t)
     \<and> 0 \<le> s \<and> s \<le> t \<and> t < 5 - 3"
    using find_best_answer_window_span_in_slice [of 3 5 "replicate 20 0" "replicate 20 0"]
    by simp blast
  then show ?thesis by simp
qed

section \<open>Span search: the longest span that can be selected\<close>

text \<open>
  Claim C4 says that the selected span, counted from its start token to its end token
  inclusive, never has more than 16 tokens; the comment in \<open>find_best_answer_window\<close> says
  the same (candidates of more than 16 words are reset). \<open>np.tril(score_mat, 16)\<close> keeps
  the entries with \<open>end - start \<le> 16\<close> (lemma \<open>softmax_best_span\<close>), which are spans of
  up to 17 tokens. Evaluated on a window of 17 context tokens (positions 2 to 18 of an
  input of 20) whose start logits peak at the first context token and whose end logits
  peak at the last: the span from local index 0 to local index 16 is selected, all 17
  tokens.
\<close>

theorem span_of_17_tokens_selected:
  "find_best_answer_window (get_score (peak_logits 20 2)) (get_score (peak_logits 20 18)) 2 19
     = Inr (4 / 441, 0, 16)"
proof -
  have s: "get_score (peak_logits 20 2) = (replicate 20 (1 / 21))[2 := 2 / 21]"
    by (simp add: get_score_peak)
  have e: "get_score (peak_logits 20 18) = (replicate 20 (1 / 21))[18 := 2 / 21]"
    by (simp add: get_score_peak)
  show ?thesis unfolding s e by (rule peak_scores_run)
qed

section \<open>Aggregation: the answer that is returned\<close>



section \<open>The empty context\<close>

text \<open>
  Claim C3 says that a context without tokens ends the query with the empty-context
  error before any window is built. \<open>run_question_answering\<close> has the guard for it, with
  the message \<open>Error: Empty context or outside paragraphs\<close>, but the guard tests the
  length of the context string, so a context that is not empty and has no tokens passes
  it (lemma \<open>tokenless_context_crashes\<close>, for every tokenizer and every model that
  answers). Evaluated on the context of one space: it has no tokens, one window is built
  for it, with an empty slice, and the query ends in the \<open>ValueError\<close> of \<open>argmax\<close> on an
  empty matrix, not in the empty-context report.
\<close>

theorem blank_context_not_reported:
  "fst (text_to_tokens demo_env (str_lower demo_env (load_context demo_env ['' '']))) = []
   \<and> map_sum id length
        (prepare_input demo_env (fst (text_to_tokens demo_env (str_lower demo_env ''q''))) [])
      = Inr 1
   \<and> run_question_answering demo_env ['' ''] (Some ''q'') [] = Inl ValueError"
proof -
  have te: "text_to_tokens demo_env = char_tokens" and lo: "str_lower demo_env = (\<lambda>s. s)"
    by (simp_all add: demo_env_def)
  have a: "fst (text_to_tokens demo_env (str_lower demo_env (load_context demo_env ['' '']))) = []"
    by (simp add: te lo demo_load_blank demo_tokens_space)
  obtain ni where pi: "prepare_input demo_env [113] [] = Inr [(ni, 16, 0)]"
    using demo_windows_empty by blast
  have b: "map_sum id length
        (prepare_input demo_env (fst (text_to_tokens demo_env (str_lower demo_env ''q''))) [])
      = Inr 1"
    by (simp add: te lo demo_tokens_q pi)
  have c: "run_question_answering demo_env ['' ''] (Some ''q'') [] = Inl ValueError"
    by (simp add: run_question_answering_def demo_load_blank demo_blank_context)
  from a b c show ?thesis by blast
qed

end
